theory Spec2Isabelle
  imports Complex_Main "HOL-Library.Sublist"
begin

section \<open>Python string and slice primitives\<close>

text \<open>
  A Python \<open>str\<close> is modelled as a \<open>string\<close>, one \<open>char\<close> per code point (so the model
  covers texts whose code points are below 256). Indices, \<open>chunk_size\<close> and \<open>overlap\<close> are
  Python's unbounded integers, hence \<open>int\<close>: a window start can become negative, and Python
  then counts from the end of the string.
\<close>

definition isspace :: "char \<Rightarrow> bool" where
  \<comment> \<open>the code points below 256 that \<open>str.strip()\<close> removes\<close>
  "isspace c = (of_char c \<in> {9, 10, 11, 12, 13, 28, 29, 30, 31, 32, 133, 160 :: nat})"

definition strip :: "string \<Rightarrow> string" where
  \<comment> \<open>\<open>text.strip()\<close>\<close>
  "strip s = rev (dropWhile isspace (rev (dropWhile isspace s)))"

definition py_index :: "int \<Rightarrow> nat \<Rightarrow> nat" where
  \<comment> \<open>a slice bound, adjusted to a string of length \<open>n\<close>: negative bounds count from the
      end, and everything is clamped to \<open>0..n\<close>\<close>
  "py_index i n = (if i < 0 then nat (i + int n) else min (nat i) n)"

definition py_slice :: "'a list \<Rightarrow> int \<Rightarrow> int \<Rightarrow> 'a list" where
  \<comment> \<open>\<open>xs[i:j]\<close>\<close>
  "py_slice xs i j =
     take (py_index j (length xs) - py_index i (length xs)) (drop (py_index i (length xs)) xs)"

definition py_slice_from :: "'a list \<Rightarrow> int \<Rightarrow> 'a list" where
  \<comment> \<open>\<open>xs[i:]\<close>\<close>
  "py_slice_from xs i = drop (py_index i (length xs)) xs"

definition rfind :: "string \<Rightarrow> string \<Rightarrow> int \<Rightarrow> int \<Rightarrow> int" where
  \<comment> \<open>\<open>text.rfind(sub, start, end)\<close>: the highest index at which \<open>sub\<close> occurs inside
      \<open>text[start:end]\<close>, or \<open>-1\<close>\<close>
  "rfind text sub start end_pos =
     (let a = (if start < 0 then nat (start + int (length text)) else nat start);
          b = py_index end_pos (length text)
      in case List.find (\<lambda>i. take (length sub) (drop i text) = sub)
                (rev [a ..< Suc b - length sub]) of
           None \<Rightarrow> - 1
         | Some i \<Rightarrow> int i)"

section \<open>The chunker (\<open>rag/embedder.py\<close>)\<close>

definition chunk_end :: "string \<Rightarrow> int \<Rightarrow> int \<Rightarrow> int" where
  \<comment> \<open>where the window that starts at \<open>start\<close> is cut: at the last paragraph break past
      the middle of the window, else just after the last sentence break past the middle,
      else at \<open>start + chunk_size\<close>\<close>
  "chunk_end text chunk_size start =
     (let end_pos = start + chunk_size in
      if end_pos < int (length text) then
        (let para_break = rfind text [CHR 0x0A, CHR 0x0A] start end_pos in
         if para_break > start + chunk_size div 2 then para_break
         else
           (let sent_break = rfind text ''. '' start end_pos in
            if sent_break > start + chunk_size div 2 then sent_break + 1 else end_pos))
      else end_pos)"

definition append_chunk :: "string list \<Rightarrow> string \<Rightarrow> string list" where
  \<comment> \<open>\<open>if chunk: chunks.append(chunk)\<close>\<close>
  "append_chunk chunks chunk = (if chunk \<noteq> [] then chunks @ [chunk] else chunks)"

definition next_start :: "string \<Rightarrow> int \<Rightarrow> int \<Rightarrow> int" where
  \<comment> \<open>\<open>start = end - overlap if end < len(text) else end\<close>\<close>
  "next_start text overlap end_pos =
     (if end_pos < int (length text) then end_pos - overlap else end_pos)"

text \<open>
  The \<open>while start < len(text)\<close> loop. Nothing in the source bounds the number of
  iterations, so the loop is a partial function: \<open>None\<close> means that it never returns.
\<close>

partial_function (option) chunk_loop ::
  "string \<Rightarrow> int \<Rightarrow> int \<Rightarrow> int \<Rightarrow> string list \<Rightarrow> string list option" where
  "chunk_loop text chunk_size overlap start chunks =
     (if start < int (length text) then
        chunk_loop text chunk_size overlap
          (next_start text overlap (chunk_end text chunk_size start))
          (append_chunk chunks (strip (py_slice text start (chunk_end text chunk_size start))))
      else Some chunks)"

declare chunk_loop.simps [code]

definition chunk_text :: "string \<Rightarrow> int \<Rightarrow> int \<Rightarrow> string list option" where
  "chunk_text text chunk_size overlap =
     (if int (length text) \<le> chunk_size then
        Some (if strip text \<noteq> [] then [strip text] else [])
      else chunk_loop text chunk_size overlap 0 [])"

text \<open>
  What the chunker promises of a chunk \<open>c\<close> cut from \<open>t\<close> with window size \<open>cs\<close>:
  it is not empty, has no white space at either end, is at most \<open>cs\<close> characters long,
  and is a trimmed slice of \<open>t\<close>, hence a contiguous part of it.
\<close>

definition well_formed_chunk :: "string \<Rightarrow> int \<Rightarrow> string \<Rightarrow> bool" where
  "well_formed_chunk t cs c \<longleftrightarrow>
     c \<noteq> [] \<and> \<not> isspace (hd c) \<and> \<not> isspace (last c) \<and> int (length c) \<le> cs
     \<and> (\<exists>i j. c = strip (py_slice t i j)) \<and> sublist c t"

section \<open>Loading documents (\<open>rag/embedder.py\<close>)\<close>

text \<open>
  The file system is an input of the model: a path is either missing (\<open>None\<close>) or a
  directory, given by its entries in the order in which \<open>Path.glob\<close> lists them. An
  entry has a name and is a file of UTF-8 text, or something that \<open>open\<close> or \<open>f.read\<close>
  refuses: a sub-directory, a dangling symbolic link, a file that may not be read, or a
  file whose bytes are not UTF-8.
\<close>

datatype dir_entry =
    TextFile string
  | SubDirectory
  | DanglingLink
  | NoPermission
  | NotUtf8

type_synonym filesystem = "string \<Rightarrow> (string \<times> dir_entry) list option"

datatype error =
    FileNotFoundError "int option" string
      \<comment> \<open>\<open>errno\<close> and the message or file name: raised by \<open>load_documents\<close> itself for a
          missing directory (no \<open>errno\<close>), and by \<open>open\<close> for a dangling link (\<open>errno\<close> 2)\<close>
  | IsADirectoryError string   \<comment> \<open>\<open>open\<close> on a sub-directory\<close>
  | PermissionError string     \<comment> \<open>\<open>open\<close> on a file that may not be read\<close>
  | UnicodeDecodeError string  \<comment> \<open>\<open>f.read\<close> on bytes that are not UTF-8\<close>
  | BackendFailure             \<comment> \<open>any exception of the generation backend or the transport\<close>

definition not_found_message :: "string \<Rightarrow> string" where
  \<comment> \<open>\<open>f"Data directory '{data_dir}' not found."\<close>\<close>
  "not_found_message data_dir =
     ''Data directory '' @ [CHR 0x27] @ data_dir @ [CHR 0x27] @ '' not found.''"

definition file_path :: "string \<Rightarrow> string \<Rightarrow> string" where
  \<comment> \<open>the path of an entry of \<open>data_dir\<close>, as \<open>open\<close> receives it\<close>
  "file_path data_dir name = data_dir @ ''/'' @ name"

fun read_text :: "string \<Rightarrow> dir_entry \<Rightarrow> error + string" where
  \<comment> \<open>\<open>with open(file_path, "r", encoding="utf-8") as f: content = f.read()\<close>\<close>
  "read_text path (TextFile text) = Inr text"
| "read_text path SubDirectory = Inl (IsADirectoryError path)"
| "read_text path DanglingLink = Inl (FileNotFoundError (Some 2) path)"
| "read_text path NoPermission = Inl (PermissionError path)"
| "read_text path NotUtf8 = Inl (UnicodeDecodeError path)"

fun readable :: "dir_entry \<Rightarrow> bool" where
  \<comment> \<open>the entries that are read without an exception\<close>
  "readable (TextFile text) = True"
| "readable SubDirectory = False"
| "readable DanglingLink = False"
| "readable NoPermission = False"
| "readable NotUtf8 = False"

record document =
  content :: string
  source :: string
  chunk_id :: string

definition digit_char :: "nat \<Rightarrow> char" where
  "digit_char d = ''0123456789'' ! d"

fun str_of_nat :: "nat \<Rightarrow> string" where
  \<comment> \<open>the decimal numeral that \<open>f"{i}"\<close> prints\<close>
  "str_of_nat n =
     (if n < 10 then [digit_char n] else str_of_nat (n div 10) @ [digit_char (n mod 10)])"

declare str_of_nat.simps [simp del]

definition glob_md :: "string \<Rightarrow> bool" where
  \<comment> \<open>the file names that \<open>glob("*.md")\<close> selects\<close>
  "glob_md name \<longleftrightarrow> suffix ''.md'' name"

definition path_stem :: "string \<Rightarrow> string" where
  \<comment> \<open>\<open>Path.stem\<close>: the name without its last suffix; a dot at the first or the last
      position starts no suffix\<close>
  "path_stem name =
     (let i = rfind name ''.'' 0 (int (length name)) in
      if 0 < i \<and> i < int (length name) - 1 then take (nat i) name else name)"

definition file_documents :: "string \<Rightarrow> string list \<Rightarrow> document list" where
  \<comment> \<open>the \<open>for i, chunk in enumerate(chunks)\<close> loop of one file\<close>
  "file_documents name chunks =
     map (\<lambda>(i, chunk).
            \<lparr>content = chunk, source = name, chunk_id = path_stem name @ ''_'' @ str_of_nat i\<rparr>)
         (enumerate 0 chunks)"

fun load_files ::
  "string \<Rightarrow> document list \<Rightarrow> (string \<times> dir_entry) list \<Rightarrow> (error + document list) option" where
  \<comment> \<open>the loop over the selected entries: it ends with the exception of the first entry
      that cannot be read; \<open>None\<close> when chunking a file never returns\<close>
  "load_files data_dir documents [] = Some (Inr documents)"
| "load_files data_dir documents ((name, entry) # entries) =
     (case read_text (file_path data_dir name) entry of
        Inl err \<Rightarrow> Some (Inl err)
      | Inr text \<Rightarrow>
          (case chunk_text text 500 50 of
             None \<Rightarrow> None
           | Some chunks \<Rightarrow>
               load_files data_dir (documents @ file_documents name chunks) entries))"

definition load_documents :: "filesystem \<Rightarrow> string \<Rightarrow> (error + document list) option" where
  "load_documents fs data_dir =
     (case fs data_dir of
        None \<Rightarrow> Some (Inl (FileNotFoundError None (not_found_message data_dir)))
      | Some entries \<Rightarrow>
          load_files data_dir [] (filter (\<lambda>(name, entry). glob_md name) entries))"

definition text_files :: "(string \<times> string) list \<Rightarrow> (string \<times> dir_entry) list" where
  \<comment> \<open>the entries of a directory that holds files of UTF-8 text only\<close>
  "text_files files = map (\<lambda>(name, text). (name, TextFile text)) files"

section \<open>The retriever (\<open>rag/retriever.py\<close>)\<close>

text \<open>
  The embedding model and the vector store are external. The model is a function
  \<open>encode\<close> from a text to its vector, and a batch is encoded text by text. The store's
  collection is the list of its entries; its nearest-neighbour query is a parameter
  \<open>nearest\<close> of the model, which reads the entries and returns, for each match, the
  text, the metadata (source and chunk id) and the distance.
\<close>

type_synonym embedding = "real list"

record embedder =
  encode :: "string \<Rightarrow> embedding"

definition embed :: "embedder \<Rightarrow> string \<Rightarrow> embedding" where
  "embed e text = encode e text"

definition embed_batch :: "embedder \<Rightarrow> string list \<Rightarrow> embedding list" where
  "embed_batch e texts = map (encode e) texts"

record entry =
  entry_id :: string
  entry_embedding :: embedding
  entry_document :: string
  entry_metadata :: "string \<times> string"

type_synonym raw_result = "string \<times> (string \<times> string) \<times> real"

type_synonym store_query = "entry list \<Rightarrow> embedding \<Rightarrow> int \<Rightarrow> raw_result list"

record retriever =
  collection :: "entry list"
  query_cache :: "string \<rightharpoonup> embedding"

record search_result = document +
  distance :: real
  relevance_score :: real

definition collection_count :: "entry list \<Rightarrow> nat" where
  "collection_count c = length c"

definition collection_delete :: "string list \<Rightarrow> entry list \<Rightarrow> entry list" where
  "collection_delete ids c = filter (\<lambda>e. entry_id e \<notin> set ids) c"

definition collection_add ::
  "string list \<Rightarrow> embedding list \<Rightarrow> string list \<Rightarrow> (string \<times> string) list \<Rightarrow> entry list
     \<Rightarrow> entry list" where
  "collection_add ids embeddings documents metadatas c =
     c @ map (\<lambda>(i, e, d, m).
                \<lparr>entry_id = i, entry_embedding = e, entry_document = d, entry_metadata = m\<rparr>)
             (zip ids (zip embeddings (zip documents metadatas)))"

definition get_document_count :: "retriever \<Rightarrow> nat" where
  "get_document_count r = collection_count (collection r)"

definition clear_cache :: "retriever \<Rightarrow> retriever" where
  "clear_cache r = r\<lparr>query_cache := Map.empty\<rparr>"

definition clear_existing :: "bool \<Rightarrow> retriever \<Rightarrow> retriever" where
  \<comment> \<open>"Clear existing documents if force reindexing"\<close>
  "clear_existing force_reindex r =
     (if force_reindex \<and> collection_count (collection r) > 0 then
        (let existing_ids = map entry_id (collection r) in
         if existing_ids \<noteq> [] then
           r\<lparr>collection := collection_delete existing_ids (collection r)\<rparr>
         else r)
      else r)"

definition add_documents :: "embedder \<Rightarrow> document list \<Rightarrow> retriever \<Rightarrow> retriever" where
  \<comment> \<open>"Prepare data", "Generate embeddings", "Add to collection"\<close>
  "add_documents e documents r =
     (let ids = map chunk_id documents;
          contents = map content documents;
          metadatas = map (\<lambda>doc. (source doc, chunk_id doc)) documents;
          embeddings = embed_batch e contents
      in r\<lparr>collection := collection_add ids embeddings contents metadatas (collection r)\<rparr>)"

definition index_documents ::
  "embedder \<Rightarrow> filesystem \<Rightarrow> string \<Rightarrow> bool \<Rightarrow> retriever
     \<Rightarrow> ((error + nat) \<times> retriever) option" where
  \<comment> \<open>the result or the exception, and the retriever as the call leaves it; \<open>None\<close> when
      the call never returns\<close>
  "index_documents e fs data_dir force_reindex r =
     (if collection_count (collection r) > 0 \<and> \<not> force_reindex then
        Some (Inr (collection_count (collection r)), r)
      else
        let r1 = clear_existing force_reindex r in
          case load_documents fs data_dir of
            None \<Rightarrow> None
          | Some (Inl err) \<Rightarrow> Some (Inl err, r1)
          | Some (Inr documents) \<Rightarrow>
              if documents = [] then Some (Inr 0, r1)
              else Some (Inr (length documents), add_documents e documents r1))"

definition search ::
  "embedder \<Rightarrow> store_query \<Rightarrow> string \<Rightarrow> int \<Rightarrow> bool \<Rightarrow> retriever
     \<Rightarrow> search_result list \<times> retriever" where
  "search e nearest query top_k use_cache r =
     (let (query_embedding, r1) =
            (case (if use_cache then query_cache r query else None) of
               Some cached \<Rightarrow> (cached, r)
             | None \<Rightarrow>
                 (embed e query,
                  if use_cache then r\<lparr>query_cache := (query_cache r)(query \<mapsto> embed e query)\<rparr>
                  else r));
          results = nearest (collection r1) query_embedding top_k
      in (map (\<lambda>(doc, (src, cid), dist).
                 \<lparr>content = doc, source = src, chunk_id = cid,
                  distance = dist, relevance_score = 1 - dist\<rparr>)
              results,
          r1))"

section \<open>The request handlers (\<open>bot.py\<close>)\<close>

text \<open>
  The generation backend is external: \<open>generate\<close> and \<open>describe_image\<close> either return a
  text or raise, and so does the download of a photo. The handlers run on the state they
  share: the retriever, the history of every user (a dictionary that starts a user at
  the empty list), the sources of every user's last answer, and the replies sent so far.
  A reply is recorded by its kind and the values formatted into it.
\<close>

record llm_client =
  generate :: "string \<Rightarrow> string \<Rightarrow> error + string"
  describe_image :: "nat list \<Rightarrow> string \<Rightarrow> error + string"

record config =
  top_k_results :: int
  max_history_per_user :: int

record turn =
  query :: string
  answer :: string
  sources :: "string list"

datatype reply =
    UsageReply                        \<comment> \<open>\<open>/ask\<close> without a question\<close>
  | NoResultsReply                    \<comment> \<open>nothing relevant in the knowledge base\<close>
  | AnswerReply string "string set"   \<comment> \<open>the answer and the set of its sources\<close>
  | ApologyReply                      \<comment> \<open>"Sorry, I encountered an error ..."\<close>
  | ImageReply string                 \<comment> \<open>the description of the image\<close>
  | ImageApologyReply                 \<comment> \<open>"Sorry, I couldn't process that image ..."\<close>

record bot_state =
  retriever :: retriever
  message_history :: "int \<rightharpoonup> turn list"
  last_sources :: "int \<rightharpoonup> search_result list"
  replies :: "reply list"

fun join :: "string \<Rightarrow> string list \<Rightarrow> string" where
  \<comment> \<open>\<open>sep.join(xs)\<close>\<close>
  "join sep [] = []"
| "join sep [x] = x"
| "join sep (x # y # ys) = x @ sep @ join sep (y # ys)"

definition reply_text :: "reply \<Rightarrow> bot_state \<Rightarrow> bot_state" where
  "reply_text m s = s\<lparr>replies := replies s @ [m]\<rparr>"

definition history_of :: "bot_state \<Rightarrow> int \<Rightarrow> turn list" where
  \<comment> \<open>\<open>message_history[user_id]\<close> of the \<open>defaultdict(list)\<close>\<close>
  "history_of s user_id = (case message_history s user_id of None \<Rightarrow> [] | Some turns \<Rightarrow> turns)"

definition history_context :: "config \<Rightarrow> turn list \<Rightarrow> string" where
  "history_context cfg turns =
     (if turns \<noteq> [] then
        [CHR 0x0A, CHR 0x0A] @ ''Recent conversation:'' @ [CHR 0x0A] @
        join [CHR 0x0A]
          (map (\<lambda>h. ''Q: '' @ query h @ [CHR 0x0A] @ ''A: '' @ take 200 (answer h) @ ''...'')
               (py_slice_from turns (- max_history_per_user cfg)))
      else [])"

definition context_text :: "search_result list \<Rightarrow> string" where
  "context_text results =
     join ([CHR 0x0A, CHR 0x0A] @ ''---'' @ [CHR 0x0A, CHR 0x0A])
       (map (\<lambda>r. ''[Source: '' @ source r @ '']'' @ [CHR 0x0A] @ content r) results)"

definition full_context :: "config \<Rightarrow> search_result list \<Rightarrow> turn list \<Rightarrow> string" where
  "full_context cfg results turns = context_text results @ history_context cfg turns"

definition ask ::
  "embedder \<Rightarrow> store_query \<Rightarrow> llm_client \<Rightarrow> config \<Rightarrow> int \<Rightarrow> string list \<Rightarrow> bot_state
     \<Rightarrow> bot_state" where
  "ask e nearest llm cfg user_id args s =
     (if args = [] then reply_text UsageReply s
      else
        let question = join '' '' args;
            (results, r1) = search e nearest question (top_k_results cfg) True (retriever s);
            s1 = s\<lparr>retriever := r1\<rparr>
        in
          if results = [] then reply_text NoResultsReply s1
          else
            let s2 = s1\<lparr>last_sources := (last_sources s1)(user_id \<mapsto> results)\<rparr> in
              case generate llm question (full_context cfg results (history_of s2 user_id)) of
                Inl err \<Rightarrow> reply_text ApologyReply s2
              | Inr generated \<Rightarrow>
                  let appended =
                        history_of s2 user_id
                          @ [\<lparr>query = question, answer = generated,
                              sources = map source results\<rparr>];
                      kept =
                        (if int (length appended) > max_history_per_user cfg then
                           py_slice_from appended (- max_history_per_user cfg)
                         else appended)
                  in reply_text (AnswerReply generated (set (map source results)))
                       (s2\<lparr>message_history := (message_history s2)(user_id \<mapsto> kept)\<rparr>))"

definition process_image ::
  "llm_client \<Rightarrow> ('photo \<Rightarrow> error + nat list) \<Rightarrow> int \<Rightarrow> string list \<Rightarrow> 'photo \<Rightarrow> bot_state
     \<Rightarrow> bot_state" where
  "process_image llm download user_id args photo s =
     (case download photo of
        Inl err \<Rightarrow> reply_text ImageApologyReply s
      | Inr image_bytes \<Rightarrow>
          let custom_prompt = (if args \<noteq> [] then join '' '' args else []) in
          case describe_image llm image_bytes custom_prompt of
            Inl err \<Rightarrow> reply_text ImageApologyReply s
          | Inr description \<Rightarrow>
              reply_text (ImageReply description)
                (s\<lparr>message_history := (message_history s)(user_id \<mapsto>
                      history_of s user_id
                        @ [\<lparr>query = ''[Image uploaded]'', answer = description,
                            sources = [''image_description'']\<rparr>])\<rparr>))"

section \<open>Verification of the chunker\<close>

subsection \<open>Searching and cutting\<close>

lemma find_Some_set: "List.find P xs = Some x \<Longrightarrow> x \<in> set xs \<and> P x"
  by (auto simp: find_Some_iff)

lemma py_index_le: "py_index i n \<le> n"
  by (auto simp: py_index_def)

lemma rfind_cases:
  "rfind t sub start e = - 1 \<or>
   (\<exists>i. rfind t sub start e = int i
      \<and> (if start < 0 then nat (start + int (length t)) else nat start) \<le> i
      \<and> i + length sub \<le> py_index e (length t))"
proof (cases "List.find (\<lambda>i. take (length sub) (drop i t) = sub)
                (rev [(if start < 0 then nat (start + int (length t)) else nat start)
                       ..< Suc (py_index e (length t)) - length sub])")
  case None
  then show ?thesis by (simp add: rfind_def)
next
  case (Some i)
  from find_Some_set [OF Some] have
    "(if start < 0 then nat (start + int (length t)) else nat start) \<le> i"
    "i < Suc (py_index e (length t)) - length sub"
    by auto
  with Some show ?thesis
    by (auto simp: rfind_def)
qed

lemma rfind_ge: "- 1 \<le> rfind t sub start e"
  using rfind_cases [of t sub start e] by auto

lemma rfind_upper:
  "rfind t sub start e \<noteq> - 1 \<Longrightarrow> rfind t sub start e + int (length sub) \<le> int (length t)"
  using rfind_cases [of t sub start e] py_index_le [of e "length t"]
  by auto

lemma chunk_end_lt_length:
  assumes "start + cs < int (length t)"
  shows "chunk_end t cs start < int (length t)"
proof -
  let ?pb = "rfind t [CHR 0x0A, CHR 0x0A] start (start + cs)"
  let ?sb = "rfind t ''. '' start (start + cs)"
  have p: "?pb < int (length t)" if "?pb \<noteq> - 1"
    using rfind_upper [OF that] by simp
  have p': "?pb < int (length t)" if "start + cs div 2 < ?pb"
  proof (cases "?pb = - 1")
    case True
    with assms that show ?thesis by simp
  next
    case False
    then show ?thesis by (rule p)
  qed
  have s: "?sb + 1 < int (length t)" if "start + cs div 2 < ?sb" "\<not> start + cs div 2 < ?pb"
  proof -
    from that rfind_ge [of t "[CHR 0x0A, CHR 0x0A]" start "start + cs"] have "?sb \<noteq> - 1"
      by simp
    from rfind_upper [OF this] show ?thesis by simp
  qed
  show ?thesis
    using assms p' s by (simp add: chunk_end_def Let_def)
qed

lemma chunk_end_gt_half:
  assumes "0 < cs"
  shows "start + cs div 2 < chunk_end t cs start"
  using assms by (auto simp: chunk_end_def Let_def)

lemma chunk_end_cases:
  "chunk_end t cs start = start + cs
   \<or> (start + cs div 2 < - 1 \<and> chunk_end t cs start = - 1)
   \<or> (\<exists>i. (chunk_end t cs start = int i \<or> chunk_end t cs start = int i + 1)
         \<and> (if start < 0 then nat (start + int (length t)) else nat start) \<le> i
         \<and> i + 2 \<le> py_index (start + cs) (length t)
         \<and> start + cs div 2 < int i)"
proof -
  let ?pb = "rfind t [CHR 0x0A, CHR 0x0A] start (start + cs)"
  let ?sb = "rfind t ''. '' start (start + cs)"
  have unfolded: "chunk_end t cs start =
      (if start + cs < int (length t) then
         if start + cs div 2 < ?pb then ?pb
         else if start + cs div 2 < ?sb then ?sb + 1 else start + cs
       else start + cs)"
    by (simp add: chunk_end_def Let_def)
  consider (raw) "chunk_end t cs start = start + cs"
    | (para) "start + cs div 2 < ?pb" "chunk_end t cs start = ?pb"
    | (sent) "\<not> start + cs div 2 < ?pb" "start + cs div 2 < ?sb" "chunk_end t cs start = ?sb + 1"
    unfolding unfolded by (cases "start + cs < int (length t)"; cases "start + cs div 2 < ?pb";
        cases "start + cs div 2 < ?sb"; simp)
  then show ?thesis
  proof cases
    case raw
    then show ?thesis by simp
  next
    case para
    from rfind_cases [of t "[CHR 0x0A, CHR 0x0A]" start "start + cs"] para
    show ?thesis by auto
  next
    case sent
    from sent rfind_ge [of t "[CHR 0x0A, CHR 0x0A]" start "start + cs"] have "?sb \<noteq> - 1"
      by simp
    with rfind_cases [of t "''. ''" start "start + cs"] sent
    show ?thesis by auto
  qed
qed

subsection \<open>Trimming and slicing\<close>

lemma strip_last: "strip s \<noteq> [] \<Longrightarrow> \<not> isspace (last (strip s))"
  unfolding strip_def using hd_dropWhile [of isspace "rev (dropWhile isspace s)"]
  by (simp add: last_rev)

lemma rev_dropWhile_rev_prefix: "prefix (rev (dropWhile P (rev ys))) ys"
proof -
  have "suffix (dropWhile P (rev ys)) (rev ys)"
    by (rule suffix_dropWhile)
  then show ?thesis
    by (simp add: suffix_to_prefix)
qed

lemma strip_hd:
  assumes "strip s \<noteq> []" 
  shows "\<not> isspace (hd (strip s))"
proof -
  let ?ys = "dropWhile isspace s"
  from rev_dropWhile_rev_prefix [of isspace ?ys]
  obtain zs where zs: "?ys = strip s @ zs"
    by (auto simp: strip_def prefix_def)
  with assms have "hd ?ys = hd (strip s)" "?ys \<noteq> []"
    by (metis hd_append2, metis append_is_Nil_conv)
  with hd_dropWhile [of isspace s] show ?thesis by simp
qed

lemma length_strip: "length (strip s) \<le> length s"
proof -
  have "length (strip s) \<le> length (dropWhile isspace s)"
    unfolding strip_def using length_dropWhile_le [of isspace "rev (dropWhile isspace s)"]
    by simp
  also have "\<dots> \<le> length s"
    by (rule length_dropWhile_le)
  finally show ?thesis .
qed

lemma sublist_strip: "sublist (strip s) s"
proof -
  have "sublist (strip s) (dropWhile isspace s)"
    unfolding strip_def using rev_dropWhile_rev_prefix by (rule prefix_imp_sublist)
  also have "sublist (dropWhile isspace s) s"
    by simp
  finally show ?thesis .
qed

lemma sublist_py_slice: "sublist (py_slice xs i j) xs"
proof -
  have "sublist (py_slice xs i j) (drop (py_index i (length xs)) xs)"
    by (simp add: py_slice_def)
  also have "sublist (drop (py_index i (length xs)) xs) xs"
    by simp
  finally show ?thesis .
qed

lemma length_py_slice:
  "length (py_slice xs i j) \<le> py_index j (length xs) - py_index i (length xs)"
  by (simp add: py_slice_def)

lemma py_index_window:
  "0 \<le> cs \<Longrightarrow> int (py_index (s + cs) n) - int (py_index s n) \<le> cs"
  by (auto simp: py_index_def)


subsection \<open>Progress of the window\<close>

lemma chunk_loop_no_result:
  assumes run: "chunk_loop t cs ov start chunks = Some r"
  shows "\<not> (0 \<le> cs \<and> cs \<le> ov \<and> start + cs < int (length t))"
proof (rule chunk_loop.raw_induct
    [where P = "\<lambda>(t :: string) cs ov start chunks r. \<not> (0 \<le> cs \<and> cs \<le> ov \<and> start + cs < int (length t))",
      OF _ run])
  fix f :: "string \<Rightarrow> int \<Rightarrow> int \<Rightarrow> int \<Rightarrow> string list \<Rightarrow> string list option"
    and t :: string and cs ov start chunks and r :: "string list"
  assume IH: "\<And>t cs ov start chunks r. f t cs ov start chunks = Some r \<Longrightarrow>
                \<not> (0 \<le> cs \<and> cs \<le> ov \<and> start + cs < int (length t))"
  assume step: "(if start < int (length t) then
        f t cs ov (next_start t ov (chunk_end t cs start))
          (append_chunk chunks (strip (py_slice t start (chunk_end t cs start))))
      else Some chunks) = Some r"
  show "\<not> (0 \<le> cs \<and> cs \<le> ov \<and> start + cs < int (length t))"
  proof
    assume a: "0 \<le> cs \<and> cs \<le> ov \<and> start + cs < int (length t)"
    then have lt: "chunk_end t cs start < int (length t)"
      by (simp add: chunk_end_lt_length)
    from a have "start < int (length t)" by simp
    with step have again: "f t cs ov (next_start t ov (chunk_end t cs start))
          (append_chunk chunks (strip (py_slice t start (chunk_end t cs start)))) = Some r"
      by simp
    have "next_start t ov (chunk_end t cs start) + cs < int (length t)"
      using a lt by (simp add: next_start_def)
    with IH [OF again] a show False by simp
  qed
qed

lemma chunk_loop_diverges:
  assumes "0 \<le> cs" "cs \<le> ov" "start + cs < int (length t)"
  shows "chunk_loop t cs ov start chunks = None"
proof (cases "chunk_loop t cs ov start chunks")
  case None
  then show ?thesis .
next
  case (Some r)
  from chunk_loop_no_result [OF Some] assms show ?thesis by simp
qed

lemma chunk_loop_returns:
  assumes "0 < cs" "ov \<le> cs div 2"
  shows "\<exists>r. chunk_loop t cs ov start chunks = Some r"
proof (induction "nat (int (length t) - start)" arbitrary: start chunks rule: less_induct)
  case less
  show ?case
  proof (cases "start < int (length t)")
    case False
    then show ?thesis by (subst chunk_loop.simps) simp
  next
    case True
    have half: "0 \<le> cs div 2"
      using assms(1) by simp
    have gt: "start + cs div 2 < chunk_end t cs start"
      using assms(1) by (rule chunk_end_gt_half)
    have "start < chunk_end t cs start - ov" "start < chunk_end t cs start"
      using half gt assms(2) by linarith+
    then have "start < next_start t ov (chunk_end t cs start)"
      by (simp add: next_start_def)
    with True have "nat (int (length t) - next_start t ov (chunk_end t cs start))
        < nat (int (length t) - start)"
      by simp
    from less [OF this] True show ?thesis
      by (subst chunk_loop.simps) simp
  qed
qed

subsection \<open>The chunks\<close>

lemma chunk_window_length:
  assumes cs: "0 \<le> cs" and inv: "- 1 \<le> start + cs div 2"
  shows "int (length (py_slice t start (chunk_end t cs start))) \<le> cs"
proof -
  let ?n = "length t"
  let ?e = "chunk_end t cs start"
  have len: "int (length (py_slice t start ?e)) \<le> int (py_index ?e ?n) - int (py_index start ?n)
             \<or> length (py_slice t start ?e) = 0"
    using length_py_slice [of t start ?e] by linarith
  have win: "int (py_index (start + cs) ?n) - int (py_index start ?n) \<le> cs"
    using cs by (rule py_index_window)
  from chunk_end_cases [of t cs start] inv
  consider (raw) "?e = start + cs"
    | (brk) i where "?e = int i \<or> ?e = int i + 1" "i + 2 \<le> py_index (start + cs) ?n"
    by auto
  then show ?thesis
  proof cases
    case raw
    with len win cs show ?thesis by auto
  next
    case brk
    have "py_index (start + cs) ?n \<le> ?n"
      by (rule py_index_le)
    with brk(2) have "py_index (int i) ?n = i" "py_index (int i + 1) ?n = i + 1"
      by (simp_all add: py_index_def)
    with brk have "int (py_index ?e ?n) < int (py_index (start + cs) ?n)"
      by auto
    with len win cs show ?thesis by auto
  qed
qed

lemma next_start_inv:
  assumes cs: "0 \<le> cs" and ov: "ov < cs" and long: "cs < int (length t)"
    and inv: "- 1 \<le> start + cs div 2"
  shows "- 1 \<le> next_start t ov (chunk_end t cs start) + cs div 2"
proof -
  let ?e = "chunk_end t cs start"
  have half: "0 \<le> cs div 2" "cs \<le> 2 * (cs div 2) + 1"
    using cs by auto
  from chunk_end_cases [of t cs start] inv
  consider (raw) "?e = start + cs"
    | (brk) i where "?e = int i \<or> ?e = int i + 1"
        "(if start < 0 then nat (start + int (length t)) else nat start) \<le> i"
        "start + cs div 2 < int i"
    by auto
  then show ?thesis
  proof cases
    case raw
    with cs ov inv half show ?thesis
      by (auto simp: next_start_def)
  next
    case brk
    show ?thesis
    proof (cases "start < 0")
      case True
      with brk(2) have "start + int (length t) \<le> int i" by simp
      with brk(1) long ov inv half show ?thesis
        by (auto simp: next_start_def)
    next
      case False
      with brk(1,3) ov half show ?thesis
        by (auto simp: next_start_def)
    qed
  qed
qed


lemma well_formed_window:
  assumes "0 \<le> cs" "- 1 \<le> start + cs div 2"
    and "strip (py_slice t start (chunk_end t cs start)) \<noteq> []"
  shows "well_formed_chunk t cs (strip (py_slice t start (chunk_end t cs start)))"
proof -
  let ?w = "py_slice t start (chunk_end t cs start)"
  have "int (length (strip ?w)) \<le> int (length ?w)"
    using length_strip [of ?w] by simp
  also have "\<dots> \<le> cs"
    using assms(1,2) by (rule chunk_window_length)
  finally have len: "int (length (strip ?w)) \<le> cs" .
  have "sublist (strip ?w) ?w" by (rule sublist_strip)
  also have "sublist ?w t" by (rule sublist_py_slice)
  finally have sub: "sublist (strip ?w) t" .
  from assms(3) len sub strip_hd [OF assms(3)] strip_last [OF assms(3)]
  show ?thesis unfolding well_formed_chunk_def by blast
qed

lemma chunk_loop_well_formed:
  assumes run: "chunk_loop t cs ov start chunks = Some r"
  shows "0 \<le> cs \<and> ov < cs \<and> cs < int (length t) \<and> - 1 \<le> start + cs div 2
            \<and> list_all (well_formed_chunk t cs) chunks
         \<longrightarrow> list_all (well_formed_chunk t cs) r"
proof (rule chunk_loop.raw_induct
    [where P = "\<lambda>(t :: string) cs ov start chunks r.
        0 \<le> cs \<and> ov < cs \<and> cs < int (length t) \<and> - 1 \<le> start + cs div 2
            \<and> list_all (well_formed_chunk t cs) chunks
         \<longrightarrow> list_all (well_formed_chunk t cs) r",
      OF _ run])
  fix f :: "string \<Rightarrow> int \<Rightarrow> int \<Rightarrow> int \<Rightarrow> string list \<Rightarrow> string list option"
    and t :: string and cs ov start chunks and r :: "string list"
  assume IH: "\<And>t cs ov start chunks r. f t cs ov start chunks = Some r \<Longrightarrow>
        0 \<le> cs \<and> ov < cs \<and> cs < int (length t) \<and> - 1 \<le> start + cs div 2
            \<and> list_all (well_formed_chunk t cs) chunks
         \<longrightarrow> list_all (well_formed_chunk t cs) r"
  assume step: "(if start < int (length t) then
        f t cs ov (next_start t ov (chunk_end t cs start))
          (append_chunk chunks (strip (py_slice t start (chunk_end t cs start))))
      else Some chunks) = Some r"
  show "0 \<le> cs \<and> ov < cs \<and> cs < int (length t) \<and> - 1 \<le> start + cs div 2
            \<and> list_all (well_formed_chunk t cs) chunks
         \<longrightarrow> list_all (well_formed_chunk t cs) r"
  proof
    assume pre: "0 \<le> cs \<and> ov < cs \<and> cs < int (length t) \<and> - 1 \<le> start + cs div 2
            \<and> list_all (well_formed_chunk t cs) chunks"
    show "list_all (well_formed_chunk t cs) r"
    proof (cases "start < int (length t)")
      case False
      with step pre show ?thesis by simp
    next
      case True
      let ?c = "strip (py_slice t start (chunk_end t cs start))"
      from True step have again: "f t cs ov (next_start t ov (chunk_end t cs start))
          (append_chunk chunks ?c) = Some r"
        by simp
      have inv': "- 1 \<le> next_start t ov (chunk_end t cs start) + cs div 2"
        using pre by (simp add: next_start_inv)
      have "list_all (well_formed_chunk t cs) (append_chunk chunks ?c)"
        using pre well_formed_window [of cs start t]
        by (simp add: append_chunk_def)
      with IH [OF again] pre inv' show ?thesis by simp
    qed
  qed
qed

lemma chunk_text_well_formed:
  assumes cs: "0 \<le> cs" and res: "chunk_text t cs ov = Some chunks"
  shows "list_all (well_formed_chunk t cs) chunks"
proof (cases "int (length t) \<le> cs")
  case True
  have "well_formed_chunk t cs (strip t)" if ne: "strip t \<noteq> []"
  proof -
    have "strip t = strip (py_slice t 0 (int (length t)))"
      by (simp add: py_slice_def py_index_def)
    moreover have "int (length (strip t)) \<le> cs"
      using True length_strip [of t] by simp
    ultimately show ?thesis
      unfolding well_formed_chunk_def
      using ne strip_hd [OF ne] strip_last [OF ne] sublist_strip [of t] by blast
  qed
  with True res show ?thesis
    by (auto simp: chunk_text_def split: if_splits)
next
  case False
  with res have run: "chunk_loop t cs ov 0 [] = Some chunks"
    by (simp add: chunk_text_def)
  have "ov < cs"
  proof (rule ccontr)
    assume "\<not> ov < cs"
    with cs False have "chunk_loop t cs ov 0 [] = None"
      by (intro chunk_loop_diverges) simp_all
    with run show False by simp
  qed
  with chunk_loop_well_formed [OF run] cs False show ?thesis
    by simp
qed

section \<open>Claims about the chunker\<close>

text \<open>
  C8. With \<open>chunk_size = 10\<close> and \<open>overlap = 3\<close> the 15-character string
  \<open>abcdefghijklmno\<close> is cut into two chunks. The windows start at 0 and at 7 (the loop
  leaves at 17), the chunks are the slices \<open>[0:10]\<close> and \<open>[7:17]\<close>, the last three
  characters of the first are the first three of the second, and the first chunk without
  that overlap followed by the second is the whole string.
\<close>

theorem chunk_text_scenario:
  "chunk_text ''abcdefghijklmno'' 10 3 = Some [''abcdefghij'', ''hijklmno'']
   \<and> chunk_end ''abcdefghijklmno'' 10 0 = 10
   \<and> next_start ''abcdefghijklmno'' 3 10 = 7
   \<and> chunk_end ''abcdefghijklmno'' 10 7 = 17
   \<and> next_start ''abcdefghijklmno'' 3 17 = 17
   \<and> py_slice ''abcdefghijklmno'' 0 10 = ''abcdefghij''
   \<and> py_slice ''abcdefghijklmno'' 7 17 = ''hijklmno''
   \<and> drop 7 ''abcdefghij'' = take 3 ''hijklmno''
   \<and> length (take 3 ''hijklmno'') = 3
   \<and> take 7 ''abcdefghij'' @ ''hijklmno'' = ''abcdefghijklmno''"
  by code_simp

text \<open>
  C3, as the source has it. The source compares the length of the text before trimming
  with \<open>chunk_size\<close>: a text of at most \<open>chunk_size\<close> characters gives exactly one chunk,
  the trimmed text, or no chunk when nothing is left after trimming.
\<close>

theorem chunk_text_short:
  assumes "int (length t) \<le> chunk_size"
  shows "chunk_text t chunk_size overlap = Some (if strip t = [] then [] else [strip t])"
  using assms by (simp add: chunk_text_def)

theorem chunk_text_short_witness:
  "int (length ''  hi '') \<le> 500
   \<and> chunk_text ''  hi '' 500 50 = Some [''hi'']
   \<and> chunk_text ''   '' 500 50 = Some []"
proof -
  have a: "int (length ''  hi '') \<le> 500" and b: "int (length ''   '') \<le> 500"
    by simp_all
  have "strip ''  hi '' = ''hi''" "strip ''   '' = []"
    by code_simp+
  with a chunk_text_short [OF a, of 50] chunk_text_short [OF b, of 50]
  show ?thesis by simp
qed

text \<open>
  C3, as stated, fails: the text \<open>"   abc   "\<close> has trimmed length 3, below
  \<open>chunk_size = 5\<close>, but its nine characters send it through the window loop, which
  returns two chunks.
\<close>

theorem chunk_text_trimmed_length_counterexample:
  "strip ''   abc   '' = ''abc''
   \<and> int (length (strip ''   abc   '')) \<le> 5
   \<and> chunk_text ''   abc   '' 5 0 = Some [''ab'', ''c'']
   \<and> chunk_text ''   abc   '' 5 0 \<noteq> Some [strip ''   abc   '']"
  by code_simp

text \<open>
  C2, as the source has it. The source has no check of \<open>overlap\<close> against \<open>chunk_size\<close>
  and raises nothing. It returns whenever the text is at most \<open>chunk_size\<close> long, or
  \<open>chunk_size\<close> is positive and \<open>overlap\<close> at most half of it (the defaults 500 and 50
  are such). When the text is longer than a non-negative \<open>chunk_size\<close> and
  \<open>overlap \<ge> chunk_size\<close>, it never returns.
\<close>

theorem chunk_text_progress:
  "((int (length t) \<le> chunk_size \<or> (0 < chunk_size \<and> overlap \<le> chunk_size div 2))
      \<longrightarrow> (\<exists>r. chunk_text t chunk_size overlap = Some r))
   \<and> ((0 \<le> chunk_size \<and> chunk_size < int (length t) \<and> chunk_size \<le> overlap)
      \<longrightarrow> chunk_text t chunk_size overlap = None)"
proof (intro conjI impI)
  assume "int (length t) \<le> chunk_size \<or> (0 < chunk_size \<and> overlap \<le> chunk_size div 2)"
  then show "\<exists>r. chunk_text t chunk_size overlap = Some r"
    using chunk_loop_returns [of chunk_size overlap t 0 "[]"]
    by (auto simp: chunk_text_def)
next
  assume a: "0 \<le> chunk_size \<and> chunk_size < int (length t) \<and> chunk_size \<le> overlap"
  then have "chunk_loop t chunk_size overlap 0 [] = None"
    by (intro chunk_loop_diverges) simp_all
  with a show "chunk_text t chunk_size overlap = None"
    by (simp add: chunk_text_def)
qed

theorem chunk_text_progress_witness:
  "(0 < (500 :: int) \<and> (50 :: int) \<le> 500 div 2)
   \<and> (\<exists>r. chunk_text ''abcdefghijklmno'' 500 50 = Some r)
   \<and> (0 < (10 :: int) \<and> (3 :: int) \<le> 10 div 2)
   \<and> (\<exists>r. chunk_text ''abcdefghijklmno'' 10 3 = Some r)
   \<and> ((0 :: int) \<le> 10 \<and> 10 < int (length ''abcdefghijklmno'') \<and> (10 :: int) \<le> 12)
   \<and> chunk_text ''abcdefghijklmno'' 10 12 = None"
  using chunk_text_progress [of "''abcdefghijklmno''" 500 50]
    chunk_text_progress [of "''abcdefghijklmno''" 10 3]
    chunk_text_progress [of "''abcdefghijklmno''" 10 12]
  by simp

text \<open>
  C2, as stated, fails: on the 15-character string with \<open>chunk_size = overlap = 10\<close>
  the window starts at 0 again after every cut, so the call never returns; there is
  no error value it could return instead.
\<close>

theorem chunk_text_no_guard_counterexample:
  "(10 :: int) < int (length ''abcdefghijklmno'')
   \<and> next_start ''abcdefghijklmno'' 10 (chunk_end ''abcdefghijklmno'' 10 0) = 0
   \<and> chunk_text ''abcdefghijklmno'' 10 10 = None"
proof -
  have "chunk_loop ''abcdefghijklmno'' 10 10 0 [] = None"
    by (rule chunk_loop_diverges) simp_all
  moreover have "next_start ''abcdefghijklmno'' 10 (chunk_end ''abcdefghijklmno'' 10 0) = 0"
    by code_simp
  ultimately show ?thesis
    by (simp add: chunk_text_def)
qed

text \<open>
  C9, for a non-negative \<open>chunk_size\<close>. Whenever \<open>chunk_text\<close> returns, every chunk of
  the result is non-empty, neither starts nor ends with white space, is at most
  \<open>chunk_size\<close> characters long, and is a trimmed slice of the text, so a contiguous
  part of it.
\<close>

theorem chunk_text_chunks:
  assumes "0 \<le> chunk_size"
    and "chunk_text t chunk_size overlap = Some chunks"
    and "c \<in> set chunks"
  shows "c \<noteq> [] \<and> \<not> isspace (hd c) \<and> \<not> isspace (last c)
         \<and> int (length c) \<le> chunk_size
         \<and> (\<exists>i j. c = strip (py_slice t i j)) \<and> sublist c t"
proof -
  from assms(1,2) have "list_all (well_formed_chunk t chunk_size) chunks"
    by (rule chunk_text_well_formed)
  with assms(3) have "well_formed_chunk t chunk_size c"
    by (simp add: list_all_iff)
  then show ?thesis
    by (simp add: well_formed_chunk_def)
qed

theorem chunk_text_chunks_witness:
  "(0 :: int) \<le> 8
   \<and> chunk_text ''Ab. cd.  Efgh ijk'' 8 1 = Some [''Ab. cd.'', ''.  Efgh'', ''ijk'']
   \<and> ''ijk'' \<in> set [''Ab. cd.'', ''.  Efgh'', ''ijk'']
   \<and> \<not> isspace (hd ''ijk'') \<and> \<not> isspace (last ''ijk'')
   \<and> int (length ''ijk'') \<le> 8
   \<and> sublist ''ijk'' ''Ab. cd.  Efgh ijk''"
proof -
  have run: "chunk_text ''Ab. cd.  Efgh ijk'' 8 1 = Some [''Ab. cd.'', ''.  Efgh'', ''ijk'']"
    by code_simp
  have mem: "''ijk'' \<in> set [''Ab. cd.'', ''.  Efgh'', ''ijk'']"
    by simp
  from chunk_text_chunks [OF _ run mem] run mem show ?thesis
    by simp
qed

text \<open>
  C9, as stated for every input, fails for a negative \<open>chunk_size\<close>: the slice
  \<open>text[0:-1]\<close> drops the last character only, and the call returns a chunk of two
  characters.
\<close>

theorem chunk_text_negative_size_counterexample:
  "chunk_text ''abc'' (- 1) (- 5) = Some [''ab'']
   \<and> \<not> int (length ''ab'') \<le> - 1"
  by code_simp

section \<open>Verification of the document loader\<close>

lemma chunk_text_default: "\<exists>chunks. chunk_text t 500 50 = Some chunks"
  using chunk_loop_returns [of 500 50 t 0 "[]"]
  by (auto simp: chunk_text_def)

lemma load_files_returns: "\<exists>res. load_files d acc entries = Some res"
proof (induction entries arbitrary: acc)
  case Nil
  show ?case by simp
next
  case (Cons f entries)
  obtain name entry where f: "f = (name, entry)" by (cases f)
  show ?case
  proof (cases "read_text (file_path d name) entry")
    case (Inl err)
    with f show ?thesis by simp
  next
    case (Inr t)
    obtain chunks where "chunk_text t 500 50 = Some chunks"
      using chunk_text_default by blast
    with Cons [of "acc @ file_documents name chunks"] f Inr show ?thesis by simp
  qed
qed

lemma read_text_readable: "(\<exists>t. read_text path entry = Inr t) \<longleftrightarrow> readable entry"
  by (cases entry) simp_all

lemma read_text_error:
  "read_text path entry = Inl err \<Longrightarrow> \<not> readable entry \<and> err \<noteq> FileNotFoundError None m"
  by (cases entry) auto

lemma load_files_error:
  assumes "load_files d acc entries = Some (Inl err)"
  shows "(\<exists>(name, entry) \<in> set entries. \<not> readable entry) \<and> err \<noteq> FileNotFoundError None m"
  using assms
proof (induction entries arbitrary: acc)
  case Nil
  then show ?case by simp
next
  case (Cons f entries)
  obtain name entry where f: "f = (name, entry)" by (cases f)
  show ?case
  proof (cases "read_text (file_path d name) entry")
    case (Inl err')
    with Cons.prems f have "err' = err" by simp
    with Inl read_text_error [of "file_path d name" entry err m] f show ?thesis
      by auto
  next
    case (Inr t)
    obtain chunks where "chunk_text t 500 50 = Some chunks"
      using chunk_text_default by blast
    with Cons.prems f Inr
    have "load_files d (acc @ file_documents name chunks) entries = Some (Inl err)"
      by simp
    from Cons.IH [OF this] show ?thesis by auto
  qed
qed

lemma load_files_result_readable:
  assumes "load_files d acc entries = Some (Inr ds)"
  shows "\<forall>(name, entry) \<in> set entries. readable entry"
  using assms
proof (induction entries arbitrary: acc)
  case Nil
  show ?case by simp
next
  case (Cons f entries)
  obtain name entry where f: "f = (name, entry)" by (cases f)
  show ?case
  proof (cases "read_text (file_path d name) entry")
    case (Inl err)
    with Cons.prems f show ?thesis by simp
  next
    case (Inr t)
    then have ok: "readable entry"
      using read_text_readable [of "file_path d name" entry] by auto
    obtain chunks where "chunk_text t 500 50 = Some chunks"
      using chunk_text_default by blast
    with Cons.prems f Inr
    have "load_files d (acc @ file_documents name chunks) entries = Some (Inr ds)"
      by simp
    from Cons.IH [OF this] ok f show ?thesis by simp
  qed
qed

lemma load_files_readable:
  assumes "\<forall>(name, entry) \<in> set entries. readable entry"
  shows "\<exists>ds. load_files d acc entries = Some (Inr ds)"
proof -
  obtain res where res: "load_files d acc entries = Some res"
    using load_files_returns by blast
  show ?thesis
  proof (cases res)
    case (Inl err)
    with res load_files_error [of d acc entries err "[]"] assms show ?thesis
      by auto
  next
    case (Inr ds)
    with res show ?thesis by simp
  qed
qed


lemma filter_text_files:
  "filter (\<lambda>(name, entry). glob_md name) (text_files files)
     = text_files (filter (\<lambda>(name, t). glob_md name) files)"
  by (induction files) (auto simp: text_files_def)

lemma file_documents_nth:
  "file_documents name chunks =
     map (\<lambda>i. \<lparr>content = chunks ! i, source = name,
                chunk_id = path_stem name @ ''_'' @ str_of_nat i\<rparr>) [0..<length chunks]"
  by (rule nth_equalityI) (simp_all add: file_documents_def nth_enumerate_eq)

lemma filter_source_file_documents:
  "filter (\<lambda>d. source d = name) (file_documents n chunks)
     = (if n = name then file_documents n chunks else [])"
  by (auto simp: file_documents_def filter_empty_conv split: prod.splits)

lemma load_files_text_returns: "\<exists>ds. load_files d acc (text_files files) = Some (Inr ds)"
  by (rule load_files_readable) (auto simp: text_files_def)

lemma load_files_by_source:
  assumes "load_files d acc (text_files files) = Some (Inr ds)"
  shows "filter (\<lambda>d. source d = name) ds =
           filter (\<lambda>d. source d = name) acc @
           concat (map (\<lambda>(n, t). if n = name
                           then file_documents n (the (chunk_text t 500 50)) else []) files)"
  using assms
proof (induction files arbitrary: acc)
  case Nil
  then show ?case by (simp add: text_files_def)
next
  case (Cons f files)
  obtain n t where f: "f = (n, t)" by (cases f)
  obtain chunks where c: "chunk_text t 500 50 = Some chunks"
    using chunk_text_default by blast
  with Cons.prems f
  have "load_files d (acc @ file_documents n chunks) (text_files files) = Some (Inr ds)"
    by (simp add: text_files_def)
  from Cons.IH [OF this] f c show ?case
    by (simp add: filter_source_file_documents)
qed

lemma concat_at_key:
  assumes "distinct (map fst files)" "(name, t) \<in> set files"
  shows "concat (map (\<lambda>(n, t'). if n = name then g n t' else []) files) = g name t"
  using assms
proof (induction files)
  case Nil
  then show ?case by simp
next
  case (Cons f files)
  obtain n t' where f: "f = (n, t')" by (cases f)
  show ?case
  proof (cases "n = name")
    case True
    with Cons.prems f have "t' = t" and "name \<notin> fst ` set files"
      by (auto simp: image_iff)
    then have "concat (map (\<lambda>(n, t'). if n = name then g n t' else []) files) = []"
      by (auto simp: image_iff)
    with True f \<open>t' = t\<close> show ?thesis by simp
  next
    case False
    with Cons f show ?thesis by auto
  qed
qed

lemma concat_no_key:
  assumes "name \<notin> fst ` set files"
  shows "concat (map (\<lambda>(n, t'). if n = name then g n t' else []) files) = []"
  using assms by (auto simp: image_iff)

lemma digit_char_inj: "a < 10 \<Longrightarrow> b < 10 \<Longrightarrow> digit_char a = digit_char b \<Longrightarrow> a = b"
proof -
  assume a: "a < 10" and b: "b < 10" and eq: "digit_char a = digit_char b"
  have d: "distinct ''0123456789''" by simp
  have l: "length ''0123456789'' = 10" by simp
  from eq have "''0123456789'' ! a = ''0123456789'' ! b"
    by (simp add: digit_char_def)
  with d a b l show "a = b"
    by (simp only: nth_eq_iff_index_eq)
qed

lemma str_of_nat_not_Nil: "str_of_nat n \<noteq> []"
  by (subst str_of_nat.simps) simp

lemma str_of_nat_inj: "str_of_nat m = str_of_nat n \<Longrightarrow> m = n"
proof (induction m arbitrary: n rule: str_of_nat.induct)
  case (1 m)
  show ?case
  proof (cases "m < 10")
    case True
    then have m: "str_of_nat m = [digit_char m]"
      by (subst str_of_nat.simps) simp
    show ?thesis
    proof (cases "n < 10")
      case True
      then have "str_of_nat n = [digit_char n]"
        by (subst str_of_nat.simps) simp
      with m 1(2) \<open>m < 10\<close> True show ?thesis
        by (auto dest: digit_char_inj)
    next
      case False
      then have "str_of_nat n = str_of_nat (n div 10) @ [digit_char (n mod 10)]"
        by (subst str_of_nat.simps) simp
      with m 1(2) str_of_nat_not_Nil [of "n div 10"] show ?thesis
        by simp
    qed
  next
    case False
    then have m: "str_of_nat m = str_of_nat (m div 10) @ [digit_char (m mod 10)]"
      by (subst str_of_nat.simps) simp
    show ?thesis
    proof (cases "n < 10")
      case True
      then have "str_of_nat n = [digit_char n]"
        by (subst str_of_nat.simps) simp
      with m 1(2) str_of_nat_not_Nil [of "m div 10"] show ?thesis
        by simp
    next
      case n: False
      then have "str_of_nat n = str_of_nat (n div 10) @ [digit_char (n mod 10)]"
        by (subst str_of_nat.simps) simp
      with m 1(2) have q: "str_of_nat (m div 10) = str_of_nat (n div 10)"
        and r: "digit_char (m mod 10) = digit_char (n mod 10)"
        by simp_all
      from 1(1) [OF False q] have d: "m div 10 = n div 10" .
      have "m mod 10 = n mod 10"
        using r by (intro digit_char_inj) simp_all
      with d show ?thesis
        by (metis div_mult_mod_eq)
    qed
  qed
qed

lemma distinct_file_documents: "distinct (map chunk_id (file_documents name chunks))"
proof -
  have "inj_on (\<lambda>i. path_stem name @ ''_'' @ str_of_nat i) (set [0..<length chunks])"
    by (auto simp: inj_on_def dest: str_of_nat_inj)
  then have "distinct (map (\<lambda>i. path_stem name @ ''_'' @ str_of_nat i) [0..<length chunks])"
    by (simp add: distinct_map)
  moreover have "map chunk_id (file_documents name chunks)
      = map (\<lambda>i. path_stem name @ ''_'' @ str_of_nat i) [0..<length chunks]"
    by (simp add: file_documents_nth comp_def)
  ultimately show ?thesis by simp
qed

section \<open>Verification of the retriever\<close>

lemma load_documents_returns:
  "\<exists>res. load_documents fs data_dir = Some res
     \<and> (res = Inl (FileNotFoundError None (not_found_message data_dir)) \<longleftrightarrow> fs data_dir = None)
     \<and> ((\<exists>err. res = Inl err) \<longleftrightarrow>
          (fs data_dir = None
           \<or> (\<exists>entries. fs data_dir = Some entries
                 \<and> (\<exists>(name, entry) \<in> set entries. glob_md name \<and> \<not> readable entry))))"
proof (cases "fs data_dir")
  case None
  then show ?thesis by (simp add: load_documents_def)
next
  case (Some entries)
  let ?md = "filter (\<lambda>(name, entry). glob_md name) entries"
  obtain res where res: "load_files data_dir [] ?md = Some res"
    using load_files_returns by blast
  with Some have run: "load_documents fs data_dir = Some res"
    by (simp add: load_documents_def)
  have which: "res \<noteq> Inl (FileNotFoundError None (not_found_message data_dir))"
    using res load_files_error [of data_dir "[]" ?md _ "not_found_message data_dir"]
    by auto
  have raises: "(\<exists>err. res = Inl err)
      \<longleftrightarrow> (\<exists>(name, entry) \<in> set entries. glob_md name \<and> \<not> readable entry)"
  proof
    assume "\<exists>err. res = Inl err"
    then obtain err where "load_files data_dir [] ?md = Some (Inl err)"
      using res by auto
    from load_files_error [OF this, of "[]"]
    show "\<exists>(name, entry) \<in> set entries. glob_md name \<and> \<not> readable entry"
      by auto
  next
    assume bad: "\<exists>(name, entry) \<in> set entries. glob_md name \<and> \<not> readable entry"
    show "\<exists>err. res = Inl err"
    proof (cases res)
      case (Inl err)
      then show ?thesis by simp
    next
      case (Inr ds)
      with res have "load_files data_dir [] ?md = Some (Inr ds)" by simp
      then have "\<forall>(name, entry) \<in> set ?md. readable entry"
        by (rule load_files_result_readable)
      with bad show ?thesis by auto
    qed
  qed
  from run which raises Some show ?thesis by simp
qed

lemma load_documents_total: "\<exists>res. load_documents fs data_dir = Some res"
  using load_documents_returns [of fs data_dir] by (elim exE conjE) (rule exI)

lemma clear_existing_False: "clear_existing False r = r"
  by (simp add: clear_existing_def)




lemma count_add_documents:
  "get_document_count (add_documents e documents r) = get_document_count r + length documents"
  by (simp add: add_documents_def get_document_count_def Let_def embed_batch_def
      collection_add_def collection_count_def)

lemma index_documents_short_circuit:
  "0 < get_document_count r \<Longrightarrow>
     index_documents e fs data_dir False r = Some (Inr (get_document_count r), r)"
  by (simp add: index_documents_def get_document_count_def)

lemma index_documents_work:
  assumes "get_document_count r = 0 \<or> force_reindex"
    and "load_documents fs data_dir = Some res"
  shows "index_documents e fs data_dir force_reindex r =
     Some (case res of
             Inl err \<Rightarrow> (Inl err, clear_existing force_reindex r)
           | Inr documents \<Rightarrow>
               if documents = [] then (Inr 0, clear_existing force_reindex r)
               else (Inr (length documents),
                     add_documents e documents (clear_existing force_reindex r)))"
proof -
  from assms(1) have "\<not> (collection_count (collection r) > 0 \<and> \<not> force_reindex)"
    by (auto simp: get_document_count_def)
  then have "index_documents e fs data_dir force_reindex r =
      (let r1 = clear_existing force_reindex r in
          case load_documents fs data_dir of
            None \<Rightarrow> None
          | Some (Inl err) \<Rightarrow> Some (Inl err, r1)
          | Some (Inr documents) \<Rightarrow>
              if documents = [] then Some (Inr 0, r1)
              else Some (Inr (length documents), add_documents e documents r1))"
    unfolding index_documents_def by (simp only: if_False)
  with assms(2) show ?thesis
    by (cases res) (simp_all add: Let_def)
qed

section \<open>Claims about the loader and the retriever\<close>

text \<open>
  C5, as the source has it. Only the files that \<open>glob("*.md")\<close> selects are loaded.
  For a directory of text files (its file names are distinct), \<open>load_documents\<close>
  returns, and the
  documents of a source are, for a selected file, its chunks in order, chunk \<open>i\<close> with
  the id \<open><stem>_<i>\<close>, and none for any other file. They depend on that file's name
  and text alone, so they are the same in every run on the same input; every document
  comes from a file of the directory, and the ids of one source are distinct.
\<close>

theorem load_documents_chunk_ids:
  assumes dir: "fs data_dir = Some (text_files files)" and names: "distinct (map fst files)"
  shows "\<exists>documents. load_documents fs data_dir = Some (Inr documents)
     \<and> (\<forall>(name, t) \<in> set files. \<exists>chunks. chunk_text t 500 50 = Some chunks
          \<and> filter (\<lambda>d. source d = name) documents =
              (if glob_md name then
                 map (\<lambda>i. \<lparr>content = chunks ! i, source = name,
                            chunk_id = path_stem name @ ''_'' @ str_of_nat i\<rparr>)
                     [0..<length chunks]
               else []))
     \<and> (\<forall>d \<in> set documents. source d \<in> fst ` set files)
     \<and> (\<forall>name. distinct (map chunk_id (filter (\<lambda>d. source d = name) documents)))"
proof -
  let ?md = "filter (\<lambda>(name, t). glob_md name) files"
  obtain documents where run: "load_files data_dir [] (text_files ?md) = Some (Inr documents)"
    using load_files_text_returns by blast
  with dir have res: "load_documents fs data_dir = Some (Inr documents)"
    by (simp add: load_documents_def filter_text_files)
  have md_names: "distinct (map fst ?md)"
    using names by (rule distinct_map_filter)
  have by_source: "filter (\<lambda>d. source d = name) documents =
      concat (map (\<lambda>(n, t). if n = name
                           then file_documents n (the (chunk_text t 500 50)) else []) ?md)"
    for name
    using load_files_by_source [OF run, of name] by simp
  have per_file: "\<exists>chunks. chunk_text t 500 50 = Some chunks
          \<and> filter (\<lambda>d. source d = name) documents =
              (if glob_md name then
                 map (\<lambda>i. \<lparr>content = chunks ! i, source = name,
                            chunk_id = path_stem name @ ''_'' @ str_of_nat i\<rparr>)
                     [0..<length chunks]
               else [])"
    if mem: "(name, t) \<in> set files" for name t
  proof -
    obtain chunks where c: "chunk_text t 500 50 = Some chunks"
      using chunk_text_default by blast
    show ?thesis
    proof (cases "glob_md name")
      case True
      with mem have "(name, t) \<in> set ?md" by simp
      with md_names have "filter (\<lambda>d. source d = name) documents
          = file_documents name (the (chunk_text t 500 50))"
        unfolding by_source by (rule concat_at_key)
      with c True show ?thesis
        by (simp add: file_documents_nth)
    next
      case False
      then have "name \<notin> fst ` set ?md" by auto
      then have "filter (\<lambda>d. source d = name) documents = []"
        unfolding by_source by (rule concat_no_key)
      with c False show ?thesis
        by simp
    qed
  qed
  have sources: "source d \<in> fst ` set files" if d: "d \<in> set documents" for d
  proof (rule ccontr)
    assume "source d \<notin> fst ` set files"
    then have "source d \<notin> fst ` set ?md" by auto
    then have "filter (\<lambda>d'. source d' = source d) documents = []"
      unfolding by_source by (rule concat_no_key)
    with d show False
      by (auto simp: filter_empty_conv)
  qed
  have dist: "distinct (map chunk_id (filter (\<lambda>d. source d = name) documents))" for name
  proof (cases "name \<in> fst ` set ?md")
    case True
    then obtain t where "(name, t) \<in> set ?md" by auto
    with md_names have "filter (\<lambda>d. source d = name) documents
        = file_documents name (the (chunk_text t 500 50))"
      unfolding by_source by (rule concat_at_key)
    then show ?thesis
      by (simp add: distinct_file_documents)
  next
    case False
    have "filter (\<lambda>d. source d = name) documents = []"
      unfolding by_source using False by (rule concat_no_key)
    then show ?thesis
      by simp
  qed
  from res per_file sources dist show ?thesis
    by blast
qed

theorem load_documents_chunk_ids_witness:
  "distinct (map fst [(''policy.md'', ''Employees get 20 days of annual leave.''),
                      (''notes.txt'', ''hello'')])
   \<and> (\<exists>documents.
         load_documents
           (\<lambda>d. if d = ''data'' then
                   Some [(''policy.md'', TextFile ''Employees get 20 days of annual leave.''),
                         (''notes.txt'', TextFile ''hello'')]
                 else None) ''data'' = Some (Inr documents)
       \<and> filter (\<lambda>d. source d = ''policy.md'') documents =
            [\<lparr>content = ''Employees get 20 days of annual leave.'', source = ''policy.md'',
              chunk_id = ''policy_0''\<rparr>]
       \<and> filter (\<lambda>d. source d = ''notes.txt'') documents = [])"
proof -
  let ?text = "''Employees get 20 days of annual leave.''"
  let ?files = "[(''policy.md'', ?text), (''notes.txt'', ''hello'')]"
  let ?fs = "\<lambda>d. if d = ''data'' then
                 Some [(''policy.md'', TextFile ?text), (''notes.txt'', TextFile ''hello'')]
               else None"
  have dir: "?fs ''data'' = Some (text_files ?files)" by (simp add: text_files_def)
  have names: "distinct (map fst ?files)" by simp
  from load_documents_chunk_ids [of "?fs" "''data''" "?files", OF dir names] obtain documents
    where res: "load_documents ?fs ''data'' = Some (Inr documents)"
      and per: "\<forall>(name, t) \<in> set ?files. \<exists>chunks. chunk_text t 500 50 = Some chunks
          \<and> filter (\<lambda>d. source d = name) documents =
              (if glob_md name then
                 map (\<lambda>i. \<lparr>content = chunks ! i, source = name,
                            chunk_id = path_stem name @ ''_'' @ str_of_nat i\<rparr>)
                     [0..<length chunks]
               else [])"
    by (elim exE conjE)
  have c: "chunk_text ?text 500 50 = Some [?text]" by code_simp
  have st: "path_stem ''policy.md'' @ ''_'' @ str_of_nat 0 = ''policy_0''" by code_simp
  have g: "glob_md ''policy.md''" "\<not> glob_md ''notes.txt''" by code_simp+
  from per c st g have
    "filter (\<lambda>d. source d = ''policy.md'') documents =
       [\<lparr>content = ?text, source = ''policy.md'', chunk_id = ''policy_0''\<rparr>]"
    "filter (\<lambda>d. source d = ''notes.txt'') documents = []"
    by auto
  with res names show ?thesis by blast
qed

text \<open>
  C5, as stated, fails: a file that \<open>*.md\<close> does not match is not loaded. The text of
  \<open>notes.txt\<close> would give one chunk, but the directory that holds only this file gives
  no document.
\<close>

theorem load_documents_every_file_counterexample:
  "chunk_text ''hello'' 500 50 = Some [''hello'']
   \<and> load_documents
         (\<lambda>d. if d = ''data'' then Some [(''notes.txt'', TextFile ''hello'')] else None) ''data''
       = Some (Inr [])"
proof -
  have "chunk_text ''hello'' 500 50 = Some [''hello'']" by code_simp
  moreover have "\<not> glob_md ''notes.txt''" by code_simp
  ultimately show ?thesis
    by (simp add: load_documents_def)
qed

text \<open>
  C6. With entries in the index and \<open>force_reindex\<close> false, \<open>index_documents\<close>
  returns the count of the entries and leaves the retriever as it is, whatever the data
  directory holds. A first call without \<open>force_reindex\<close> always returns, and a second
  one on the same directory then returns the same result and changes nothing, so
  \<open>get_document_count\<close> stays what the first call left.
\<close>

theorem index_documents_idempotent:
  "\<exists>res r1 r2.
       index_documents e fs data_dir False r = Some (res, r1)
     \<and> index_documents e fs data_dir False r1 = Some (res, r2)
     \<and> r2 = r1
     \<and> get_document_count r2 = get_document_count r1
     \<and> (0 < get_document_count r \<longrightarrow> res = Inr (get_document_count r) \<and> r1 = r)"
proof -
  have twice: ?thesis
    if first: "index_documents e fs data_dir False r = Some (res, r1)"
      and second: "index_documents e fs data_dir False r1 = Some (res, r1)"
      and short: "0 < get_document_count r \<longrightarrow> res = Inr (get_document_count r) \<and> r1 = r"
    for res r1
  proof (intro exI conjI)
    show "index_documents e fs data_dir False r = Some (res, r1)" by (rule first)
    show "index_documents e fs data_dir False r1 = Some (res, r1)" by (rule second)
    show "r1 = r1" by (rule refl)
    show "get_document_count r1 = get_document_count r1" by (rule refl)
    show "0 < get_document_count r \<longrightarrow> res = Inr (get_document_count r) \<and> r1 = r"
      by (rule short)
  qed
  show ?thesis
  proof (cases "0 < get_document_count r")
    case True
    then have "index_documents e fs data_dir False r = Some (Inr (get_document_count r), r)"
      by (rule index_documents_short_circuit)
    then have run: "index_documents e fs data_dir False r = Some (Inr (get_document_count r), r)" .
    from run run show ?thesis
      by (rule twice) simp
  next
    case False
    then have empty: "get_document_count r = 0" by simp
    obtain res where res: "load_documents fs data_dir = Some res"
      using load_documents_total by blast
    have work: "index_documents e fs data_dir False r =
       Some (case res of
               Inl err \<Rightarrow> (Inl err, r)
             | Inr documents \<Rightarrow>
                 if documents = [] then (Inr 0, r)
                 else (Inr (length documents), add_documents e documents r))"
      using index_documents_work [of r False fs data_dir res e, unfolded clear_existing_False]
        res empty
      by simp
    show ?thesis
    proof (cases res)
      case (Inl err)
      with work have run: "index_documents e fs data_dir False r = Some (Inl err, r)"
        by simp
      from run run show ?thesis
        by (rule twice) (simp add: empty)
    next
      case (Inr documents)
      show ?thesis
      proof (cases "documents = []")
        case True
        with Inr work have run: "index_documents e fs data_dir False r = Some (Inr 0, r)"
          by simp
        from run run show ?thesis
          by (rule twice) (simp add: empty)
      next
        case nonempty: False
        let ?r1 = "add_documents e documents r"
        have count: "get_document_count ?r1 = length documents"
          using empty by (simp add: count_add_documents)
        from Inr nonempty work
        have first: "index_documents e fs data_dir False r = Some (Inr (length documents), ?r1)"
          by simp
        from nonempty count have "0 < get_document_count ?r1" by simp
        then have "index_documents e fs data_dir False ?r1
            = Some (Inr (get_document_count ?r1), ?r1)"
          by (rule index_documents_short_circuit)
        then have second: "index_documents e fs data_dir False ?r1
            = Some (Inr (length documents), ?r1)"
          by (simp only: count)
        from first second show ?thesis
          by (rule twice) (simp add: empty)
      qed
    qed
  qed
qed

theorem index_documents_idempotent_witness:
  "(0 < get_document_count
         \<lparr>collection = [\<lparr>entry_id = ''policy_0'', entry_embedding = [1],
                          entry_document = ''Employees get 20 days of annual leave.'',
                          entry_metadata = (''policy.md'', ''policy_0'')\<rparr>],
          query_cache = Map.empty\<rparr>
   \<and> index_documents \<lparr>encode = \<lambda>t. [1]\<rparr> (\<lambda>d. None) ''data'' False
         \<lparr>collection = [\<lparr>entry_id = ''policy_0'', entry_embedding = [1],
                          entry_document = ''Employees get 20 days of annual leave.'',
                          entry_metadata = (''policy.md'', ''policy_0'')\<rparr>],
          query_cache = Map.empty\<rparr>
       = Some (Inr 1,
         \<lparr>collection = [\<lparr>entry_id = ''policy_0'', entry_embedding = [1],
                          entry_document = ''Employees get 20 days of annual leave.'',
                          entry_metadata = (''policy.md'', ''policy_0'')\<rparr>],
          query_cache = Map.empty\<rparr>))
   \<and> (\<exists>r1 r2.
      index_documents \<lparr>encode = \<lambda>t. [1]\<rparr>
        (\<lambda>d. if d = ''data'' then Some [(''policy.md'', TextFile ''Annual leave: 20 days.'')]
              else None)
        ''data'' False \<lparr>collection = [], query_cache = Map.empty\<rparr> = Some (Inr 1, r1)
    \<and> index_documents \<lparr>encode = \<lambda>t. [1]\<rparr>
        (\<lambda>d. if d = ''data'' then Some [(''policy.md'', TextFile ''Annual leave: 20 days.'')]
              else None)
        ''data'' False r1 = Some (Inr 1, r2)
    \<and> get_document_count r1 = 1 \<and> get_document_count r2 = 1)"
proof -
  have short: "0 < get_document_count
         \<lparr>collection = [\<lparr>entry_id = ''policy_0'', entry_embedding = [1],
                          entry_document = ''Employees get 20 days of annual leave.'',
                          entry_metadata = (''policy.md'', ''policy_0'')\<rparr>],
          query_cache = Map.empty\<rparr>
   \<and> index_documents \<lparr>encode = \<lambda>t. [1]\<rparr> (\<lambda>d. None) ''data'' False
         \<lparr>collection = [\<lparr>entry_id = ''policy_0'', entry_embedding = [1],
                          entry_document = ''Employees get 20 days of annual leave.'',
                          entry_metadata = (''policy.md'', ''policy_0'')\<rparr>],
          query_cache = Map.empty\<rparr>
       = Some (Inr 1,
         \<lparr>collection = [\<lparr>entry_id = ''policy_0'', entry_embedding = [1],
                          entry_document = ''Employees get 20 days of annual leave.'',
                          entry_metadata = (''policy.md'', ''policy_0'')\<rparr>],
          query_cache = Map.empty\<rparr>)"
  proof -
    let ?r = "\<lparr>collection = [\<lparr>entry_id = ''policy_0'', entry_embedding = [1],
                            entry_document = ''Employees get 20 days of annual leave.'',
                            entry_metadata = (''policy.md'', ''policy_0'')\<rparr>],
            query_cache = Map.empty\<rparr>"
    have count: "get_document_count ?r = 1"
      by (simp add: get_document_count_def collection_count_def)
    from index_documents_idempotent [of "\<lparr>encode = \<lambda>t. [1]\<rparr>" "\<lambda>d. None" "''data''" ?r]
    obtain res r1 where "index_documents \<lparr>encode = \<lambda>t. [1]\<rparr> (\<lambda>d. None) ''data'' False ?r
          = Some (res, r1)"
      and "0 < get_document_count ?r \<longrightarrow> res = Inr (get_document_count ?r) \<and> r1 = ?r"
      by (elim exE conjE)
    with count show ?thesis by simp
  qed
  have twice: "\<exists>r1 r2.
      index_documents \<lparr>encode = \<lambda>t. [1]\<rparr>
        (\<lambda>d. if d = ''data'' then Some [(''policy.md'', TextFile ''Annual leave: 20 days.'')]
              else None)
        ''data'' False \<lparr>collection = [], query_cache = Map.empty\<rparr> = Some (Inr 1, r1)
    \<and> index_documents \<lparr>encode = \<lambda>t. [1]\<rparr>
        (\<lambda>d. if d = ''data'' then Some [(''policy.md'', TextFile ''Annual leave: 20 days.'')]
              else None)
        ''data'' False r1 = Some (Inr 1, r2)
    \<and> get_document_count r1 = 1 \<and> get_document_count r2 = 1"
  proof -
    let ?r = "\<lparr>collection = [], query_cache = Map.empty\<rparr> :: retriever"
    let ?e = "\<lparr>encode = \<lambda>t. [1]\<rparr> :: embedder"
    let ?fs = "\<lambda>d. if d = ''data'' then Some [(''policy.md'', TextFile ''Annual leave: 20 days.'')]
                 else None"
    have c: "chunk_text ''Annual leave: 20 days.'' 500 50 = Some [''Annual leave: 20 days.'']"
      by code_simp
    have g: "glob_md ''policy.md''" by code_simp
    have load: "load_documents ?fs ''data''
        = Some (Inr (file_documents ''policy.md'' [''Annual leave: 20 days.'']))"
      using c g by (simp add: load_documents_def)
    have one: "length (file_documents ''policy.md'' [''Annual leave: 20 days.'']) = 1"
      by (simp add: file_documents_def)
    then have ne: "file_documents ''policy.md'' [''Annual leave: 20 days.''] \<noteq> []"
      by auto
    have first: "index_documents ?e ?fs ''data'' False ?r
        = Some (Inr 1, add_documents ?e (file_documents ''policy.md'' [''Annual leave: 20 days.''])
                         (clear_existing False ?r))"
      using load one ne by (simp add: index_documents_def collection_count_def)
    from index_documents_idempotent [of ?e ?fs "''data''" ?r] first
    obtain r1 r2 where "index_documents ?e ?fs ''data'' False ?r = Some (Inr 1, r1)"
      and "index_documents ?e ?fs ''data'' False r1 = Some (Inr 1, r2)"
      and "get_document_count r2 = get_document_count r1"
      and "r1 = add_documents ?e (file_documents ''policy.md'' [''Annual leave: 20 days.''])
                         (clear_existing False ?r)"
      by auto
    moreover have "get_document_count
        (add_documents ?e (file_documents ''policy.md'' [''Annual leave: 20 days.''])
           (clear_existing False ?r)) = 1"
    proof -
      have "get_document_count ?r = 0"
        by (simp add: get_document_count_def collection_count_def)
      with one show ?thesis
        by (simp only: count_add_documents clear_existing_False)
    qed
    ultimately show ?thesis by auto
  qed
  from short twice show ?thesis by (rule conjI)
qed




text \<open>
  C10. \<open>search\<close> and \<open>clear_cache\<close> leave the collection, and so the count of the
  entries, as it was; \<open>clear_cache\<close> empties the cache of query embeddings.
\<close>

theorem search_clear_cache_frame:
  "collection (snd (search e nearest q top_k use_cache r)) = collection r
   \<and> get_document_count (snd (search e nearest q top_k use_cache r)) = get_document_count r
   \<and> collection (clear_cache r) = collection r
   \<and> get_document_count (clear_cache r) = get_document_count r
   \<and> query_cache (clear_cache r) = Map.empty"
  by (simp add: search_def clear_cache_def get_document_count_def Let_def
      split: option.splits prod.splits)

section \<open>Verification of the request handlers\<close>

lemma search_with_cache:
  "search e nearest q k True r =
     (fst (search e nearest q k True r),
      r\<lparr>query_cache := (query_cache r)(q \<mapsto>
            (case query_cache r q of Some cached \<Rightarrow> cached | None \<Rightarrow> embed e q))\<rparr>)"
proof (cases "query_cache r q")
  case None
  then show ?thesis by (simp add: search_def Let_def)
next
  case (Some cached)
  then have "(query_cache r)(q \<mapsto> cached) = query_cache r"
    by (rule map_upd_triv)
  with Some show ?thesis by (simp add: search_def Let_def)
qed

lemma search_again:
  assumes "search e nearest q k True r = (results, r1)"
  shows "search e nearest q k True r1 = (results, r1)"
proof (cases "query_cache r q")
  case None
  with assms have r1: "r1 = r\<lparr>query_cache := (query_cache r)(q \<mapsto> embed e q)\<rparr>"
    and res: "results = fst (search e nearest q k True r)"
    by (auto simp: search_def Let_def)
  have "(query_cache r1)(q \<mapsto> embed e q) = query_cache r1"
    by (simp add: r1)
  show ?thesis
    using None res by (simp add: r1 search_def Let_def)
next
  case (Some cached)
  with assms have "r1 = r"
    by (auto simp: search_def Let_def)
  with assms show ?thesis by simp
qed

lemma history_of_frame [simp]:
  "history_of (s\<lparr>retriever := r\<rparr>) user_id = history_of s user_id"
  "history_of (s\<lparr>last_sources := l\<rparr>) user_id = history_of s user_id"
  "history_of (s\<lparr>replies := m\<rparr>) user_id = history_of s user_id"
  by (simp_all add: history_of_def)

lemma ask_after_search:
  assumes "args \<noteq> []"
    and "search e nearest (join '' '' args) (top_k_results cfg) True (retriever s) = (results, r1)"
    and "results \<noteq> []"
  shows "ask e nearest llm cfg user_id args s =
     (case generate llm (join '' '' args) (full_context cfg results (history_of s user_id)) of
        Inl err \<Rightarrow>
          reply_text ApologyReply
            (s\<lparr>retriever := r1, last_sources := (last_sources s)(user_id \<mapsto> results)\<rparr>)
      | Inr generated \<Rightarrow>
          reply_text (AnswerReply generated (set (map source results)))
            (s\<lparr>retriever := r1, last_sources := (last_sources s)(user_id \<mapsto> results),
               message_history := (message_history s)(user_id \<mapsto>
                 (if int (length (history_of s user_id
                        @ [\<lparr>query = join '' '' args, answer = generated,
                            sources = map source results\<rparr>])) > max_history_per_user cfg
                  then py_slice_from (history_of s user_id
                        @ [\<lparr>query = join '' '' args, answer = generated,
                            sources = map source results\<rparr>]) (- max_history_per_user cfg)
                  else history_of s user_id
                        @ [\<lparr>query = join '' '' args, answer = generated,
                            sources = map source results\<rparr>]))\<rparr>))"
  using assms by (simp add: ask_def Let_def split: sum.splits)

lemma process_image_history:
  assumes "download photo = Inr image_bytes"
    and "describe_image llm image_bytes (if args \<noteq> [] then join '' '' args else []) = Inr description"
  shows "history_of (process_image llm download user_id args photo s) user_id
           = history_of s user_id
               @ [\<lparr>query = ''[Image uploaded]'', answer = description,
                   sources = [''image_description'']\<rparr>]"
  using assms by (simp add: process_image_def Let_def reply_text_def history_of_def)

lemma py_slice_from_last:
  "0 < n \<Longrightarrow> py_slice_from xs (- int n) = drop (length xs - n) xs"
  by (auto simp: py_slice_from_def py_index_def nat_diff_distrib')

lemma ask_history:
  assumes "args \<noteq> []"
    and "search e nearest (join '' '' args) (top_k_results cfg) True (retriever s) = (results, r1)"
    and "results \<noteq> []"
    and "generate llm (join '' '' args) (full_context cfg results (history_of s user_id))
           = Inr generated"
    and "0 < max_history_per_user cfg"
  shows "history_of (ask e nearest llm cfg user_id args s) user_id
           = drop (length (history_of s user_id) + 1 - nat (max_history_per_user cfg))
               (history_of s user_id
                  @ [\<lparr>query = join '' '' args, answer = generated,
                      sources = map source results\<rparr>])"
    and "int (length (history_of (ask e nearest llm cfg user_id args s) user_id))
           \<le> max_history_per_user cfg"
proof -
  let ?appended = "history_of s user_id
                  @ [\<lparr>query = join '' '' args, answer = generated,
                      sources = map source results\<rparr>]"
  let ?n = "nat (max_history_per_user cfg)"
  have n: "0 < ?n" "max_history_per_user cfg = int ?n"
    using assms(5) by simp_all
  have slice: "py_slice_from ?appended (- max_history_per_user cfg)
      = drop (length ?appended - ?n) ?appended"
    using py_slice_from_last [OF n(1), of ?appended] n(2) by simp
  have "history_of (ask e nearest llm cfg user_id args s) user_id
      = (if int (length ?appended) > max_history_per_user cfg
         then py_slice_from ?appended (- max_history_per_user cfg) else ?appended)"
    unfolding ask_after_search [OF assms(1-3)] assms(4)
    by (simp add: reply_text_def history_of_def)
  also have "\<dots> = drop (length ?appended - ?n) ?appended"
    using slice n by auto
  finally show "history_of (ask e nearest llm cfg user_id args s) user_id
           = drop (length (history_of s user_id) + 1 - ?n) ?appended"
    by simp
  then show "int (length (history_of (ask e nearest llm cfg user_id args s) user_id))
           \<le> max_history_per_user cfg"
    using n by auto
qed

text \<open>
  The slice \<open>[-N:]\<close> is the whole list when \<open>N = 0\<close>: with the limit 0 an answered
  \<open>/ask\<close> keeps every turn.
\<close>

lemma ask_zero_limit_keeps_history:
  "map_option (map query)
     (message_history
        (ask \<lparr>encode = \<lambda>t. [1]\<rparr>
           (\<lambda>c v k. [(''Annual leave: 20 days.'', (''policy.md'', ''policy_0''), 0)])
           \<lparr>generate = \<lambda>q c. Inr ''a2'', describe_image = \<lambda>b p. Inr ''a cat''\<rparr>
           \<lparr>top_k_results = 3, max_history_per_user = 0\<rparr> 7 [''q2'']
           \<lparr>retriever = \<lparr>collection = [], query_cache = Map.empty\<rparr>,
            message_history =
              [7 \<mapsto> [\<lparr>query = ''q1'', answer = ''a1'', sources = [''policy.md'']\<rparr>]],
            last_sources = Map.empty, replies = []\<rparr>) 7)
   = Some [''q1'', ''q2'']"
  by (simp add: ask_def search_def embed_def Let_def reply_text_def
      history_of_def py_slice_from_def py_index_def)

section \<open>Claims about the request handlers\<close>

text \<open>
  C4, as the source has it. When \<open>/ask\<close> has found results and the generation backend
  fails, the handler replies with the apology and leaves the history of every user and
  the indexed entries as they were. The search has run before the backend is called:
  the cache of query embeddings holds the embedding of this query afterwards (it is
  unchanged exactly when the query was cached already), and the results are stored as
  the user's last sources. A retry of the same query that fails again changes nothing
  but the replies.
\<close>

theorem ask_generation_failure:
  assumes "args \<noteq> []"
    and "search e nearest (join '' '' args) (top_k_results cfg) True (retriever s) = (results, r1)"
    and "results \<noteq> []"
    and "generate llm (join '' '' args) (full_context cfg results (history_of s user_id)) = Inl err"
  shows "replies (ask e nearest llm cfg user_id args s) = replies s @ [ApologyReply]
     \<and> message_history (ask e nearest llm cfg user_id args s) = message_history s
     \<and> collection (retriever (ask e nearest llm cfg user_id args s)) = collection (retriever s)
     \<and> query_cache (retriever (ask e nearest llm cfg user_id args s))
         = (query_cache (retriever s))(join '' '' args \<mapsto>
              (case query_cache (retriever s) (join '' '' args) of
                 Some cached \<Rightarrow> cached | None \<Rightarrow> embed e (join '' '' args)))
     \<and> last_sources (ask e nearest llm cfg user_id args s) = (last_sources s)(user_id \<mapsto> results)
     \<and> ask e nearest llm cfg user_id args (ask e nearest llm cfg user_id args s)
         = reply_text ApologyReply (ask e nearest llm cfg user_id args s)"
proof -
  let ?q = "join '' '' args"
  let ?s2 = "s\<lparr>retriever := r1, last_sources := (last_sources s)(user_id \<mapsto> results)\<rparr>"
  let ?s' = "ask e nearest llm cfg user_id args s"
  have s': "?s' = reply_text ApologyReply ?s2"
    unfolding ask_after_search [OF assms(1-3)] assms(4) by simp
  from assms(2) search_with_cache [of e nearest ?q "top_k_results cfg" "retriever s"]
  have r1: "r1 = (retriever s)\<lparr>query_cache := (query_cache (retriever s))(?q \<mapsto>
            (case query_cache (retriever s) ?q of Some cached \<Rightarrow> cached | None \<Rightarrow> embed e ?q))\<rparr>"
    by simp
  have again: "search e nearest ?q (top_k_results cfg) True (retriever ?s') = (results, r1)"
    using search_again [OF assms(2)] by (simp add: s' reply_text_def)
  have hist: "history_of ?s' user_id = history_of s user_id"
    by (simp add: s' reply_text_def)
  have "ask e nearest llm cfg user_id args ?s'
      = reply_text ApologyReply
          (?s'\<lparr>retriever := r1, last_sources := (last_sources ?s')(user_id \<mapsto> results)\<rparr>)"
    unfolding ask_after_search [OF assms(1) again assms(3)] hist assms(4) by simp
  also have "?s'\<lparr>retriever := r1, last_sources := (last_sources ?s')(user_id \<mapsto> results)\<rparr> = ?s'"
    by (simp add: s' reply_text_def)
  finally have retry: "ask e nearest llm cfg user_id args ?s' = reply_text ApologyReply ?s'" .
  have "replies ?s' = replies s @ [ApologyReply]"
    "message_history ?s' = message_history s"
    "retriever ?s' = r1"
    "last_sources ?s' = (last_sources s)(user_id \<mapsto> results)"
    by (simp_all add: s' reply_text_def)
  moreover have "collection r1 = collection (retriever s)"
    by (subst r1) simp
  moreover have "query_cache r1 = (query_cache (retriever s))(?q \<mapsto>
            (case query_cache (retriever s) ?q of Some cached \<Rightarrow> cached | None \<Rightarrow> embed e ?q))"
    by (subst r1) simp
  ultimately show ?thesis
    using retry by simp
qed

theorem ask_generation_failure_witness:
  "[''leave'', ''days''] \<noteq> []
   \<and> generate \<lparr>generate = \<lambda>q c. Inl BackendFailure, describe_image = \<lambda>b p. Inl BackendFailure\<rparr>
         (join '' '' [''leave'', ''days''])
         (full_context \<lparr>top_k_results = 3, max_history_per_user = 3\<rparr>
            [\<lparr>content = ''Annual leave: 20 days.'', source = ''policy.md'',
              chunk_id = ''policy_0'', distance = 0, relevance_score = 1\<rparr>]
            [])
       = Inl BackendFailure
   \<and> replies
        (ask \<lparr>encode = \<lambda>t. [1]\<rparr>
           (\<lambda>c v k. [(''Annual leave: 20 days.'', (''policy.md'', ''policy_0''), 0)])
           \<lparr>generate = \<lambda>q c. Inl BackendFailure, describe_image = \<lambda>b p. Inl BackendFailure\<rparr>
           \<lparr>top_k_results = 3, max_history_per_user = 3\<rparr> 7 [''leave'', ''days'']
           \<lparr>retriever = \<lparr>collection = [], query_cache = Map.empty\<rparr>,
            message_history = Map.empty, last_sources = Map.empty, replies = []\<rparr>)
       = [ApologyReply]
   \<and> message_history
        (ask \<lparr>encode = \<lambda>t. [1]\<rparr>
           (\<lambda>c v k. [(''Annual leave: 20 days.'', (''policy.md'', ''policy_0''), 0)])
           \<lparr>generate = \<lambda>q c. Inl BackendFailure, describe_image = \<lambda>b p. Inl BackendFailure\<rparr>
           \<lparr>top_k_results = 3, max_history_per_user = 3\<rparr> 7 [''leave'', ''days'']
           \<lparr>retriever = \<lparr>collection = [], query_cache = Map.empty\<rparr>,
            message_history = Map.empty, last_sources = Map.empty, replies = []\<rparr>)
       = Map.empty"
proof -
  let ?e = "\<lparr>encode = \<lambda>t. [1]\<rparr> :: embedder"
  let ?nearest = "(\<lambda>c v k. [(''Annual leave: 20 days.'', (''policy.md'', ''policy_0''), 0)])
                    :: store_query"
  let ?llm = "\<lparr>generate = \<lambda>q c. Inl BackendFailure,
                describe_image = \<lambda>b p. Inl BackendFailure\<rparr> :: llm_client"
  let ?cfg = "\<lparr>top_k_results = 3, max_history_per_user = 3\<rparr> :: config"
  let ?s = "\<lparr>retriever = \<lparr>collection = [], query_cache = Map.empty\<rparr>,
            message_history = Map.empty, last_sources = Map.empty, replies = []\<rparr> :: bot_state"
  let ?results = "[\<lparr>content = ''Annual leave: 20 days.'', source = ''policy.md'',
              chunk_id = ''policy_0'', distance = 0, relevance_score = 1\<rparr>] :: search_result list"
  have args: "[''leave'', ''days''] \<noteq> []" by simp
  have found: "search ?e ?nearest (join '' '' [''leave'', ''days'']) (top_k_results ?cfg) True
                 (retriever ?s)
      = (?results, \<lparr>collection = [], query_cache = [''leave days'' \<mapsto> [1]]\<rparr>)"
    by (simp add: search_def embed_def Let_def)
  have some: "?results \<noteq> []" by simp
  have hist: "history_of ?s 7 = []" by (simp add: history_of_def)
  have fails: "generate ?llm (join '' '' [''leave'', ''days''])
                 (full_context ?cfg ?results (history_of ?s 7)) = Inl BackendFailure"
    by simp
  from ask_generation_failure [OF args found some fails] fails hist
  show ?thesis by simp
qed

text \<open>
  C4, as stated, fails for the cache: the query \<open>leave\<close> is not cached before the call;
  the backend fails, the apology is sent, and the cache holds the embedding of the query.
\<close>

theorem ask_failure_cache_counterexample:
  "query_cache (retriever
        \<lparr>retriever = \<lparr>collection = [], query_cache = Map.empty\<rparr>,
         message_history = Map.empty, last_sources = Map.empty, replies = []\<rparr>) ''leave'' = None
   \<and> replies
        (ask \<lparr>encode = \<lambda>t. [1]\<rparr>
           (\<lambda>c v k. [(''Annual leave: 20 days.'', (''policy.md'', ''policy_0''), 0)])
           \<lparr>generate = \<lambda>q c. Inl BackendFailure, describe_image = \<lambda>b p. Inl BackendFailure\<rparr>
           \<lparr>top_k_results = 3, max_history_per_user = 3\<rparr> 7 [''leave'']
           \<lparr>retriever = \<lparr>collection = [], query_cache = Map.empty\<rparr>,
            message_history = Map.empty, last_sources = Map.empty, replies = []\<rparr>)
       = [ApologyReply]
   \<and> query_cache (retriever
        (ask \<lparr>encode = \<lambda>t. [1]\<rparr>
           (\<lambda>c v k. [(''Annual leave: 20 days.'', (''policy.md'', ''policy_0''), 0)])
           \<lparr>generate = \<lambda>q c. Inl BackendFailure, describe_image = \<lambda>b p. Inl BackendFailure\<rparr>
           \<lparr>top_k_results = 3, max_history_per_user = 3\<rparr> 7 [''leave'']
           \<lparr>retriever = \<lparr>collection = [], query_cache = Map.empty\<rparr>,
            message_history = Map.empty, last_sources = Map.empty, replies = []\<rparr>)) ''leave''
       = Some [1]"
  by (simp add: ask_def search_def embed_def Let_def reply_text_def)

text \<open>
  C1. The claim is not met by \<open>process_image\<close>: it appends to the history and never
  trims it. With the limit 3 and three turns stored, a processed image leaves four
  turns, where an answered \<open>/ask\<close> on the same state leaves the last three.
\<close>

theorem process_image_exceeds_history_limit:
  "max_history_per_user \<lparr>top_k_results = 3, max_history_per_user = 3\<rparr> = 3
   \<and> map_option (map query)
        (message_history
          \<lparr>retriever = \<lparr>collection = [], query_cache = Map.empty\<rparr>,
           message_history =
             [7 \<mapsto> [\<lparr>query = ''q1'', answer = ''a1'', sources = [''policy.md'']\<rparr>,
                     \<lparr>query = ''q2'', answer = ''a2'', sources = [''policy.md'']\<rparr>,
                     \<lparr>query = ''q3'', answer = ''a3'', sources = [''policy.md'']\<rparr>]],
           last_sources = Map.empty, replies = []\<rparr> 7)
       = Some [''q1'', ''q2'', ''q3'']
   \<and> map_option (map query)
        (message_history
          (process_image
             \<lparr>generate = \<lambda>q c. Inr ''a4'', describe_image = \<lambda>b p. Inr ''a cat''\<rparr>
             (\<lambda>p. Inr [255, 216]) 7 [] ()
             \<lparr>retriever = \<lparr>collection = [], query_cache = Map.empty\<rparr>,
              message_history =
                [7 \<mapsto> [\<lparr>query = ''q1'', answer = ''a1'', sources = [''policy.md'']\<rparr>,
                        \<lparr>query = ''q2'', answer = ''a2'', sources = [''policy.md'']\<rparr>,
                        \<lparr>query = ''q3'', answer = ''a3'', sources = [''policy.md'']\<rparr>]],
              last_sources = Map.empty, replies = []\<rparr>) 7)
       = Some [''q1'', ''q2'', ''q3'', ''[Image uploaded]'']
   \<and> map_option (map query)
        (message_history
          (ask \<lparr>encode = \<lambda>t. [1]\<rparr>
             (\<lambda>c v k. [(''Annual leave: 20 days.'', (''policy.md'', ''policy_0''), 0)])
             \<lparr>generate = \<lambda>q c. Inr ''a4'', describe_image = \<lambda>b p. Inr ''a cat''\<rparr>
             \<lparr>top_k_results = 3, max_history_per_user = 3\<rparr> 7 [''q4'']
             \<lparr>retriever = \<lparr>collection = [], query_cache = Map.empty\<rparr>,
              message_history =
                [7 \<mapsto> [\<lparr>query = ''q1'', answer = ''a1'', sources = [''policy.md'']\<rparr>,
                        \<lparr>query = ''q2'', answer = ''a2'', sources = [''policy.md'']\<rparr>,
                        \<lparr>query = ''q3'', answer = ''a3'', sources = [''policy.md'']\<rparr>]],
              last_sources = Map.empty, replies = []\<rparr>) 7)
       = Some [''q2'', ''q3'', ''q4'']"
  by (simp add: process_image_def ask_def search_def embed_def Let_def reply_text_def
      history_of_def py_slice_from_def py_index_def)

end
